theory Spec2Isabelle
  imports Main "HOL-Library.Word"
begin

unbundle bit_operations_syntax

section \<open>Data model\<close>

text \<open>
  Go's \<open>byte\<close>/\<open>uint8\<close> is an 8-bit word and \<open>uint32\<close> a 32-bit word. Go's \<open>int\<close>
  (64 bits on the platforms the library targets) is modelled as \<open>int\<close>: every \<open>int\<close> the
  codec computes is a sum of a few buffer lengths and decoded 32-bit lengths, far below
  \<open>2 ^ 63\<close>. The conversions are written out: \<open>uint32(x)\<close> and \<open>byte(x)\<close> are
  \<open>word_of_int\<close> (truncation), \<open>int(w)\<close> is \<open>uint\<close>.

  A byte slice is a \<open>byte list\<close>; its capacity is taken equal to its length, as for a
  slice made by \<open>make([]byte, n)\<close>. A slice expression out of range panics in Go; the
  model returns \<open>Panic\<close> there.
\<close>

type_synonym byte = "8 word"
type_synonym uint32 = "32 word"

text \<open>
  The errors of the package: \<open>io.ErrUnexpectedEOF\<close>, \<open>io.ErrShortBuffer\<close>, the messages
  built with \<open>fmt.Errorf\<close>, and \<open>Panic\<close> for a run-time panic (which is not an error value
  in Go: the call does not return).
\<close>

datatype error = ErrUnexpectedEOF | ErrShortBuffer | Errorf string | Panic

subsection \<open>Tag\<close>

type_synonym Tag = byte

definition NewTag :: "int \<Rightarrow> int \<Rightarrow> int \<Rightarrow> Tag" where
  "NewTag cls form code = word_of_int (push_bit 6 cls OR push_bit 5 form OR code)"

definition Class :: "Tag \<Rightarrow> int" where
  "Class t = drop_bit 6 (uint t) AND 3"

definition Form :: "Tag \<Rightarrow> int" where
  "Form t = drop_bit 5 (uint t) AND 1"

definition Code :: "Tag \<Rightarrow> int" where
  "Code t = uint t AND 31"

section \<open>Length codec\<close>

text \<open>
  The accumulation loop of the decoder,
  \<^verbatim>\<open>for i := 0; i < numOctets; i++ { actualLength = (actualLength << 8) | uint32(b[2+i]) }\<close>.
  It runs only after the guard \<open>len(b) < 2+numOctets\<close> has been passed, so every read
  \<open>b[2+i]\<close> is in range.
\<close>

function accumulate :: "byte list \<Rightarrow> nat \<Rightarrow> nat \<Rightarrow> uint32 \<Rightarrow> uint32" where
  "accumulate b numOctets i actualLength =
     (if i < numOctets
      then accumulate b numOctets (i + 1) (push_bit 8 actualLength OR ucast (b ! (2 + i)))
      else actualLength)"
  by pat_completeness auto
termination
  by (relation "measure (\<lambda>(b, numOctets, i, actualLength). numOctets - i)") auto

declare accumulate.simps [simp del]

text \<open>\<open>UnmarshalAsn1ElementLength\<close> of \<^verbatim>\<open>util.go\<close>: the length and the bytes its field occupies.\<close>

definition UnmarshalAsn1ElementLength :: "byte list \<Rightarrow> error + (int \<times> int)" where
  "UnmarshalAsn1ElementLength b =
     (if length b < 2 then Inl (Errorf ''buffer too short to read length'')
      else if b ! 1 \<le> 0x7f then Inr (uint (b ! 1), 1)
      else let numOctets = unat (b ! 1 AND 0x7f) in
        if numOctets = 0 then Inl (Errorf ''indefinite length not supported'')
        else if length b < 2 + numOctets
          then Inl (Errorf ''buffer too short for long-form length'')
        else Inr (uint (accumulate b numOctets 0 0), 1 + int numOctets))"

text \<open>
  The two-result \<open>UnmarshalAsn1ElementLength\<close> that accompanies the IE source (the one its
  callers \<open>i.Length, err = UnmarshalAsn1ElementLength(b)\<close> are written against). It has no
  guard on \<open>len(b)\<close>: reading \<open>b[1]\<close> of a shorter buffer panics.
\<close>

definition UnmarshalAsn1ElementLength_ie :: "byte list \<Rightarrow> error + int" where
  "UnmarshalAsn1ElementLength_ie b =
     (if length b < 2 then Inl Panic
      else if b ! 1 \<le> 0x7f then Inr (uint (b ! 1))
      else let numOctets = unat (b ! 1 AND 0x7f) in
        if numOctets = 0 then Inl (Errorf ''indefinite length not supported'')
        else if length b < 2 + numOctets
          then Inl (Errorf ''buffer too short for long-form length'')
        else Inr (uint (accumulate b numOctets 0 0)))"

text \<open>
  The extraction loop of the encoder,
  \<^verbatim>\<open>for tempLen > 0 { valBytes = append([]byte{byte(tempLen & 0xff)}, valBytes...); tempLen >>= 8 }\<close>.
\<close>

function extract_loop :: "uint32 \<Rightarrow> byte list \<Rightarrow> byte list" where
  "extract_loop tempLen valBytes =
     (if tempLen > 0
      then extract_loop (drop_bit 8 tempLen) (ucast (tempLen AND 0xff) # valBytes)
      else valBytes)"
  by pat_completeness auto
termination
proof (relation "measure (\<lambda>(tempLen, valBytes). unat tempLen)")
  show "wf (measure (\<lambda>(tempLen :: uint32, valBytes :: byte list). unat tempLen))"
    by simp
next
  fix tempLen :: uint32 and valBytes :: "byte list"
  assume "0 < tempLen"
  then have "0 < unat tempLen"
    by (simp add: word_greater_zero_iff unat_gt_0)
  then have "unat tempLen div 2 ^ 8 < unat tempLen"
    by simp
  moreover have "unat (drop_bit 8 tempLen) = unat tempLen div 2 ^ 8"
    by (simp add: drop_bit_eq_div unat_div)
  ultimately show "((drop_bit 8 tempLen, ucast (tempLen AND 0xff) # valBytes), (tempLen, valBytes))
      \<in> measure (\<lambda>(tempLen, valBytes). unat tempLen)"
    by simp
qed

declare extract_loop.simps [simp del]

definition MarshalAsn1ElementLength :: "int \<Rightarrow> byte list" where
  "MarshalAsn1ElementLength len =
     (if len \<le> 127 then [word_of_int len]
      else let valBytes = extract_loop (word_of_int len) [];
               header = 0x80 OR word_of_nat (length valBytes)
           in header # valBytes)"

section \<open>Information elements\<close>

text \<open>
  The struct \<open>IE\<close>: the embedded \<open>Tag\<close>, \<open>Length\<close>, \<open>Value\<close> and the children \<open>IE\<close>
  (a slice of pointers in Go; nothing proved here depends on their sharing, so they are
  values).
  The zero value \<open>&IE{}\<close> is \<open>zeroIE\<close>; a nil slice and an empty slice are both \<open>[]\<close>.
\<close>

datatype IE = MkIE (Tag: Tag) (Length: int) (Value: "byte list") (IE: "IE list")

definition zeroIE :: IE where
  "zeroIE = MkIE 0 0 [] []"

definition MarshalLen :: "IE \<Rightarrow> int" where
  "MarshalLen ie =
     (let lHeader = int (length (MarshalAsn1ElementLength (Length ie)))
      in 1 + lHeader + Length ie)"

definition SetLength :: "IE \<Rightarrow> IE" where
  "SetLength i = MkIE (Tag i) (int (length (Value i))) (Value i) (IE i)"

definition NewIE :: "Tag \<Rightarrow> byte list \<Rightarrow> IE" where
  "NewIE tag val = SetLength (MkIE tag 0 val [])"

text \<open>
  Go's builtin \<open>copy(dst, src)\<close>: the first \<open>min(len(dst), len(src))\<close> elements of \<open>dst\<close>
  are overwritten; the result is \<open>dst\<close> afterwards.
\<close>

definition copy :: "byte list \<Rightarrow> byte list \<Rightarrow> byte list" where
  "copy dst src = (let n = min (length dst) (length src) in take n src @ drop n dst)"

text \<open>
  \<open>MarshalTo\<close> writes into the caller's buffer \<open>b\<close>; the model returns the buffer after the
  call. An error is returned before anything is written. The slice \<open>b[2:i.MarshalLen()]\<close>
  panics when \<open>MarshalLen\<close> is below 2 or above the capacity of \<open>b\<close>.
\<close>

definition MarshalTo :: "IE \<Rightarrow> byte list \<Rightarrow> error + byte list" where
  "MarshalTo i b =
     (if length b < 2 then Inl ErrUnexpectedEOF
      else let lenBytes = MarshalAsn1ElementLength (Length i);
               totalNeeded = 1 + length lenBytes + length (Value i)
        in if length b < totalNeeded then Inl ErrShortBuffer
        else let b1 = b[0 := Tag i];
                 b2 = take 1 b1 @ copy (drop 1 b1) lenBytes;
                 hi = MarshalLen i
          in if hi < 2 \<or> int (length b2) < hi then Inl Panic
          else Inr (take 2 b2 @ copy (take (nat hi - 2) (drop 2 b2)) (Value i)
                      @ drop (nat hi) b2))"

text \<open>\<open>make([]byte, n)\<close> panics for a negative \<open>n\<close> and gives \<open>n\<close> zero bytes otherwise.\<close>

definition MarshalBinary :: "IE \<Rightarrow> error + byte list" where
  "MarshalBinary i =
     (if MarshalLen i < 0 then Inl Panic
      else MarshalTo i (replicate (nat (MarshalLen i)) 0))"

text \<open>
  \<open>UnmarshalBinary\<close> mutates its receiver and returns an error: the model returns the
  receiver after the call and the error, if any. On a failure of the length decoder the
  assignment \<open>i.Length, err = ...\<close> has already stored the decoder's \<open>-1\<close>.
\<close>

definition UnmarshalBinary :: "IE \<Rightarrow> byte list \<Rightarrow> IE \<times> error option" where
  "UnmarshalBinary i b =
     (let l = length b in
      if l < 3 then (i, Some ErrUnexpectedEOF)
      else let i1 = MkIE (b ! 0) (Length i) (Value i) (IE i) in
        case UnmarshalAsn1ElementLength_ie b of
          Inl err \<Rightarrow> (MkIE (Tag i1) (- 1) (Value i1) (IE i1), Some err)
        | Inr len \<Rightarrow>
            let i2 = MkIE (Tag i1) len (Value i1) (IE i1) in
            if int l < 2 + Length i2 then (i2, Some ErrUnexpectedEOF)
            else if 2 + Length i2 < 2 then (i2, Some Panic)
            else (MkIE (Tag i2) (Length i2) (take (nat (Length i2)) (drop 2 b)) (IE i2), None))"

definition ParseIE :: "byte list \<Rightarrow> error + IE" where
  "ParseIE b =
     (case UnmarshalBinary zeroIE b of
        (i, Some err) \<Rightarrow> Inl err
      | (i, None) \<Rightarrow> Inr i)"

subsection \<open>Flat parsing of a sequence\<close>

lemma Unmarshal_ie_nonneg: "UnmarshalAsn1ElementLength_ie b = Inr len \<Longrightarrow> 0 \<le> len"
  by (auto simp: UnmarshalAsn1ElementLength_ie_def Let_def split: if_splits)

lemma Marshal_length_pos: "1 \<le> length (MarshalAsn1ElementLength len)"
  by (simp add: MarshalAsn1ElementLength_def Let_def)

lemma MarshalLen_ge2: "0 \<le> Length i \<Longrightarrow> 2 \<le> MarshalLen i"
  using Marshal_length_pos[of "Length i"] by (simp add: MarshalLen_def Let_def)

lemma UnmarshalBinary_Length: "UnmarshalBinary i0 b = (i, None) \<Longrightarrow> 0 \<le> Length i"
  by (auto simp: UnmarshalBinary_def Let_def dest: Unmarshal_ie_nonneg
      split: if_splits sum.splits)

lemma ParseIE_MarshalLen: "ParseIE b = Inr i \<Longrightarrow> 2 \<le> MarshalLen i"
  by (auto simp: ParseIE_def intro!: MarshalLen_ge2 dest: UnmarshalBinary_Length
      split: prod.splits option.splits)

text \<open>
  The loop of \<open>ParseMultiIEs\<close>. The slice \<open>b[i.MarshalLen():]\<close> panics when
  \<open>MarshalLen\<close> exceeds \<open>len(b)\<close>. The loop terminates because a parsed IE has a length
  of at least 0, hence a \<open>MarshalLen\<close> of at least 2.
\<close>

function ParseMultiIEs_loop :: "byte list \<Rightarrow> IE list \<Rightarrow> error + IE list" where
  "ParseMultiIEs_loop b ies =
     (if length b = 0 then Inr ies
      else case ParseIE b of
          Inl err \<Rightarrow> Inl err
        | Inr i \<Rightarrow>
            if MarshalLen i < 0 \<or> int (length b) < MarshalLen i then Inl Panic
            else ParseMultiIEs_loop (drop (nat (MarshalLen i)) b) (ies @ [i]))"
  by pat_completeness auto
termination
proof (relation "measure (\<lambda>(b, ies). length b)")
  show "wf (measure (\<lambda>(b :: byte list, ies :: IE list). length b))" by simp
next
  fix b :: "byte list" and ies :: "IE list" and i :: IE
  assume "length b \<noteq> 0" and "ParseIE b = Inr i"
  then show "((drop (nat (MarshalLen i)) b, ies @ [i]), (b, ies)) \<in> measure (\<lambda>(b, ies). length b)"
    using ParseIE_MarshalLen[of b i] by simp
qed

declare ParseMultiIEs_loop.simps [simp del]

definition ParseMultiIEs :: "byte list \<Rightarrow> error + IE list" where
  "ParseMultiIEs b = ParseMultiIEs_loop b []"

subsection \<open>Recursive parsing\<close>

text \<open>
  \<open>ParseAsBER\<close> (its loop), \<open>ParseIERecursive\<close> and \<open>ParseRecursive\<close> call one another.
  \<open>ParseRecursive\<close> mutates its receiver and returns an error: the model returns the
  receiver after the call and the error, if any. A panic of the nested \<open>ParseAsBER\<close>
  is not an error value that \<open>if err != nil\<close> could swallow: it unwinds through
  \<open>ParseRecursive\<close>. The summing loop \<open>for _, ie := range i.IE { l += ie.MarshalLen() }\<close>
  is the \<open>foldl\<close> from 2. The loop starts from \<open>var ies []*IE\<close>, so \<open>ParseAsBER(b)\<close> is
  \<open>ParseAsBER_loop b []\<close>. With \<open>l = 0\<close> the loop would run forever on the same buffer;
  \<open>advance_ge2\<close> below shows that \<open>l\<close> is at least 2.
\<close>

function ParseAsBER_loop :: "byte list \<Rightarrow> IE list \<Rightarrow> error + IE list"
  and ParseIERecursive :: "byte list \<Rightarrow> error + IE"
  and ParseRecursive :: "IE \<Rightarrow> byte list \<Rightarrow> IE \<times> error option"
where
  "ParseAsBER_loop b ies =
     (if length b = 0 then Inr ies
      else case ParseIERecursive b of
          Inl err \<Rightarrow> Inl err
        | Inr i \<Rightarrow>
            let l = (if length (IE i) = 0 then MarshalLen i
                     else if MarshalLen (IE i ! 0) < MarshalLen i - 2
                       then foldl (\<lambda>l ie. l + MarshalLen ie) 2 (IE i)
                     else MarshalLen i)
            in if l < 0 \<or> int (length b) < l then Inl Panic
               else ParseAsBER_loop (drop (nat l) b) (ies @ [i]))"
| "ParseIERecursive b =
     (case ParseRecursive zeroIE b of
        (i, Some err) \<Rightarrow> Inl err
      | (i, None) \<Rightarrow> Inr i)"
| "ParseRecursive i b =
     (let l = length b in
      if l < 2 then (i, Some ErrUnexpectedEOF)
      else let i1 = MkIE (b ! 0) (Length i) (Value i) (IE i) in
        case UnmarshalAsn1ElementLength_ie b of
          Inl err \<Rightarrow> (MkIE (Tag i1) (- 1) (Value i1) (IE i1), Some err)
        | Inr len \<Rightarrow>
            let i2 = MkIE (Tag i1) len (Value i1) (IE i1) in
            if Length i2 + 2 > int (length b) then (i2, None)
            else if 2 + Length i2 < 2 then (i2, Some Panic)
            else let i3 = MkIE (Tag i2) (Length i2) (take (nat (Length i2)) (drop 2 b)) (IE i2) in
              if Form (Tag i3) = 1
              then (case ParseAsBER_loop (Value i3) [] of
                      Inl err \<Rightarrow> (if err = Panic then (i3, Some Panic) else (i3, None))
                    | Inr x \<Rightarrow> (MkIE (Tag i3) (Length i3) (Value i3) (IE i3 @ x), None))
              else (i3, None))"
  by pat_completeness auto

text \<open>
  Termination: \<open>ParseRecursive\<close> recurses on \<open>b[2 : 2+Length]\<close>, which is shorter than
  \<open>b\<close>; the loop recurses on \<open>b[l:]\<close>, and \<open>l\<close> is at least 2 because every parsed
  element, and every child of it, has a length of at least 0. The latter is shown on
  the domain of the functions first.
\<close>

lemma foldl_MarshalLen_ge:
  "\<forall>c\<in>set cs. 0 \<le> Length c \<Longrightarrow> a \<le> foldl (\<lambda>l ie. l + MarshalLen ie) a cs"
proof (induction cs arbitrary: a)
  case Nil
  show ?case by simp
next
  case (Cons c cs)
  then have "2 \<le> MarshalLen c" by (simp add: MarshalLen_ge2)
  moreover have "a + MarshalLen c \<le> foldl (\<lambda>l ie. l + MarshalLen ie) (a + MarshalLen c) cs"
    using Cons by simp
  ultimately show ?case by simp
qed

lemma parse_nonneg_dom:
  "ParseAsBER_loop_ParseIERecursive_ParseRecursive_dom (Inl (b, ies)) \<Longrightarrow>
     ParseAsBER_loop b ies = Inr r \<Longrightarrow> (\<forall>c\<in>set ies. 0 \<le> Length c) \<Longrightarrow> (\<forall>c\<in>set r. 0 \<le> Length c)"
  "ParseAsBER_loop_ParseIERecursive_ParseRecursive_dom (Inr (Inl b')) \<Longrightarrow>
     ParseIERecursive b' = Inr i' \<Longrightarrow> 0 \<le> Length i' \<and> (\<forall>c\<in>set (IE i'). 0 \<le> Length c)"
  "ParseAsBER_loop_ParseIERecursive_ParseRecursive_dom (Inr (Inr (i0, b''))) \<Longrightarrow>
     ParseRecursive i0 b'' = (i'', None) \<Longrightarrow> (\<forall>c\<in>set (IE i0). 0 \<le> Length c) \<Longrightarrow>
     0 \<le> Length i'' \<and> (\<forall>c\<in>set (IE i''). 0 \<le> Length c)"
proof (induct arbitrary: r and i' and i'' rule: ParseAsBER_loop_ParseIERecursive_ParseRecursive.pinduct)
  case (1 b ies)
  show ?case
  proof (cases "length b = 0")
    case True
    with "1.prems" "1.hyps"(1) show ?thesis by (simp add: ParseAsBER_loop.psimps)
  next
    case False
    with "1.prems"(1) "1.hyps"(1) obtain ba where ba: "ParseIERecursive b = Inr ba"
      by (auto simp: ParseAsBER_loop.psimps split: sum.splits)
    define x where "x = (if length (IE ba) = 0 then MarshalLen ba
            else if MarshalLen (IE ba ! 0) < MarshalLen ba - 2
                 then foldl (\<lambda>l ie. l + MarshalLen ie) 2 (IE ba)
                 else MarshalLen ba)"
    from False ba "1.prems"(1) "1.hyps"(1) have nx: "\<not> (x < 0 \<or> int (length b) < x)"
      and rec: "ParseAsBER_loop (drop (nat x) b) (ies @ [ba]) = Inr r"
      by (auto simp: ParseAsBER_loop.psimps Let_def x_def split: if_splits)
    from "1.hyps"(2)[OF False ba] have "0 \<le> Length ba" by simp
    with "1.prems"(2) have "\<forall>c\<in>set (ies @ [ba]). 0 \<le> Length c" by simp
    from "1.hyps"(3)[OF False ba x_def nx rec this] show ?thesis .
  qed
next
  case (2 b)
  from "2.prems" "2.hyps"(1) have "ParseRecursive zeroIE b = (i', None)"
    by (auto simp: ParseIERecursive.psimps split: prod.splits option.splits)
  from "2.hyps"(2)[OF this] show ?case by (simp add: zeroIE_def)
next
  case (3 i b)
  show ?case
    using "3.prems" "3.hyps"(2)
    apply (simp add: ParseRecursive.psimps[OF "3.hyps"(1)] Let_def split: if_splits sum.splits)
    apply (auto dest: Unmarshal_ie_nonneg)
    done
qed

lemma advance_pos_dom:
  assumes "ParseAsBER_loop_ParseIERecursive_ParseRecursive_dom (Inr (Inl b))"
    and "ParseIERecursive b = Inr i"
  shows "2 \<le> (if length (IE i) = 0 then MarshalLen i
            else if MarshalLen (IE i ! 0) < MarshalLen i - 2
                 then foldl (\<lambda>l ie. l + MarshalLen ie) 2 (IE i)
                 else MarshalLen i)"
proof -
  from parse_nonneg_dom(2)[OF assms] have "0 \<le> Length i" and "\<forall>c\<in>set (IE i). 0 \<le> Length c"
    by simp_all
  then show ?thesis
    using MarshalLen_ge2[of i] foldl_MarshalLen_ge[of "IE i" 2] by simp
qed

lemma parse_total: "All ParseAsBER_loop_ParseIERecursive_ParseRecursive_dom"
proof (relation "measure (\<lambda>x. case x of Inl (b, ies) \<Rightarrow> 3 * length b + 2
                      | Inr (Inl b) \<Rightarrow> 3 * length b + 1
                      | Inr (Inr (i, b)) \<Rightarrow> 3 * length b)", goal_cases)
  case 1
  show ?case by simp
next
  case (2 b ies)
  show ?case by simp
next
  case (3 b ies i l)
  from advance_pos_dom[OF 3(5) 3(2)] 3(3) have "2 \<le> l" by simp
  with 3(1) show ?case by simp
next
  case (4 b)
  show ?case by simp
next
  case 5
  then show ?case by simp
qed

termination ParseAsBER_loop
  by (rule parse_total)

lemma Length_nonneg:
  "ParseIERecursive b = Inr i \<Longrightarrow> 0 \<le> Length i \<and> (\<forall>c\<in>set (IE i). 0 \<le> Length c)"
  by (rule parse_nonneg_dom(2)[OF spec[OF parse_total]])

lemma advance_ge2:
  "ParseIERecursive b = Inr i \<Longrightarrow>
   2 \<le> (if length (IE i) = 0 then MarshalLen i
        else if MarshalLen (IE i ! 0) < MarshalLen i - 2
          then foldl (\<lambda>l ie. l + MarshalLen ie) 2 (IE i)
        else MarshalLen i)"
  by (rule advance_pos_dom[OF spec[OF parse_total]])

declare ParseAsBER_loop.simps [simp del] ParseIERecursive.simps [simp del]
  ParseRecursive.simps [simp del]

definition ParseAsBER :: "byte list \<Rightarrow> error + IE list" where
  "ParseAsBER b = ParseAsBER_loop b []"

section \<open>Specification vocabulary\<close>

text \<open>
  The value a byte string denotes as an unsigned big-endian integer. This is the
  specification's notion (``big-endian bytes''), not a function of the source.
\<close>

definition be_nat :: "byte list \<Rightarrow> nat" where
  "be_nat bs = foldl (\<lambda>a x. a * 256 + unat x) 0 bs"


section \<open>Properties of the length codec\<close>

lemma extract_loop_app: "extract_loop t (vb @ ws) = extract_loop t vb @ ws"
proof (induction t vb rule: extract_loop.induct)
  case (1 tempLen valBytes)
  show ?case
  proof (cases "tempLen > 0")
    case True
    then show ?thesis
      using 1[OF True] by (subst (1 2) extract_loop.simps) simp
  next
    case False
    then show ?thesis by (subst (1 2) extract_loop.simps) simp
  qed
qed

lemma extract_loop_0: "extract_loop 0 vb = vb"
  by (subst extract_loop.simps) simp

lemma extract_loop_step: "t \<noteq> 0 \<Longrightarrow> extract_loop t [] = extract_loop (drop_bit 8 t) [] @ [ucast (t AND 0xff)]"
  using extract_loop_app[of "drop_bit 8 t" "[]" "[ucast (t AND 0xff)]"]
  by (subst extract_loop.simps) (simp add: word_greater_zero_iff)

lemma and_ff: "(t::uint32) AND 0xff = take_bit 8 t"
  by (simp add: take_bit_eq_mask mask_eq_exp_minus_1)

lemma split_word: "push_bit 8 (drop_bit 8 (t::uint32)) OR ucast (ucast (t AND 0xff) :: byte) = t"
  unfolding and_ff by (rule bit_eqI) (auto simp add: bit_simps)

lemma unat_low: "unat (ucast ((t::uint32) AND 0xff) :: byte) = unat t mod 256"
  unfolding and_ff by (simp add: unsigned_ucast_eq unsigned_take_bit_eq take_bit_eq_mod unat_mod)

lemma unat_split_low: "unat (t::uint32) = unat (drop_bit 8 t) * 256 + unat (ucast (t AND 0xff) :: byte)"
  unfolding unat_low by (simp add: drop_bit_eq_div unat_div)

lemma low_nonzero: "t \<noteq> 0 \<Longrightarrow> drop_bit 8 (t::uint32) = 0 \<Longrightarrow> (ucast (t AND 0xff) :: byte) \<noteq> 0"
  using split_word[of t] by auto


lemma be_nat_snoc: "be_nat (bs @ [x]) = be_nat bs * 256 + unat x"
  by (simp add: be_nat_def)

lemma unat_drop_less: "t \<noteq> 0 \<Longrightarrow> unat (drop_bit 8 (t::uint32)) < unat t"
proof -
  assume "t \<noteq> 0"
  then have "0 < unat t" by (simp add: unat_gt_0)
  then have "unat t div 2 ^ 8 < unat t" by simp
  moreover have "unat (drop_bit 8 t) = unat t div 2 ^ 8"
    by (simp add: drop_bit_eq_div unat_div)
  ultimately show ?thesis by simp
qed

lemma be_nat_extract: "be_nat (extract_loop t []) = unat t"
proof (induction "unat t" arbitrary: t rule: less_induct)
  case less
  show ?case
  proof (cases "t = 0")
    case True
    then show ?thesis by (simp add: extract_loop_0 be_nat_def)
  next
    case False
    have "be_nat (extract_loop (drop_bit 8 t) []) = unat (drop_bit 8 t)"
      using less[OF unat_drop_less[OF False]] .
    then show ?thesis
      using unat_split_low[of t] by (simp add: extract_loop_step[OF False] be_nat_snoc)
  qed
qed

lemma length_extract_bound: "unat t < 256 ^ k \<Longrightarrow> length (extract_loop t []) \<le> k"
proof (induction k arbitrary: t)
  case 0
  then have "t = 0" by (simp add: unat_eq_0)
  then show ?case by (simp add: extract_loop_0)
next
  case (Suc k)
  show ?case
  proof (cases "t = 0")
    case True
    then show ?thesis by (simp add: extract_loop_0)
  next
    case False
    have "unat (drop_bit 8 t) = unat t div 256"
      by (simp add: drop_bit_eq_div unat_div)
    with Suc.prems have "unat (drop_bit 8 t) < 256 ^ k"
      by (simp add: less_mult_imp_div_less mult.commute)
    from Suc.IH[OF this] show ?thesis
      by (simp add: extract_loop_step[OF False])
  qed
qed

lemma length_extract_le4: "length (extract_loop t []) \<le> 4"
proof -
  have "unat t < 2 ^ 32" using unsigned_less[of t] by simp
  then have "unat t < 256 ^ 4" by simp
  then show ?thesis by (rule length_extract_bound)
qed

lemma length_extract_pos: "t \<noteq> 0 \<Longrightarrow> 0 < length (extract_loop t [])"
  by (simp add: extract_loop_step)

lemma hd_extract: "t \<noteq> 0 \<Longrightarrow> hd (extract_loop t []) \<noteq> 0"
proof (induction "unat t" arbitrary: t rule: less_induct)
  case less
  show ?case
  proof (cases "drop_bit 8 t = 0")
    case True
    then show ?thesis
      using low_nonzero[OF less.prems True] by (simp add: extract_loop_step[OF less.prems] extract_loop_0)
  next
    case False
    have "hd (extract_loop (drop_bit 8 t) []) \<noteq> 0"
      using less.hyps[OF unat_drop_less[OF less.prems] False] .
    moreover have "extract_loop (drop_bit 8 t) [] \<noteq> []"
      using length_extract_pos[OF False] by simp
    ultimately show ?thesis
      by (simp add: extract_loop_step[OF less.prems])
  qed
qed

lemma accumulate_foldl:
  "2 + n \<le> length b \<Longrightarrow> i \<le> n \<Longrightarrow>
   accumulate b n i acc = foldl (\<lambda>a x. push_bit 8 a OR ucast x) acc (take (n - i) (drop (2 + i) b))"
proof (induction b n i acc rule: accumulate.induct)
  case (1 b numOctets i actualLength)
  show ?case
  proof (cases "i < numOctets")
    case True
    then have "2 + i < length b" using "1.prems" by simp
    then have d: "drop (2 + i) b = b ! (2 + i) # drop (2 + (i + 1)) b"
      by (simp add: Cons_nth_drop_Suc)
    from True have t: "numOctets - i = Suc (numOctets - (i + 1))" by simp
    from True have "i + 1 \<le> numOctets" by simp
    from "1.IH"[OF True "1.prems"(1) this] show ?thesis
      using True by (subst accumulate.simps) (simp only: d t take_Suc_Cons foldl_Cons if_True)
  next
    case False
    then show ?thesis using "1.prems" by (subst accumulate.simps) simp
  qed
qed

lemma foldl_extract: "foldl (\<lambda>a x. push_bit 8 a OR ucast x) 0 (extract_loop t []) = t"
proof (induction "unat t" arbitrary: t rule: less_induct)
  case less
  show ?case
  proof (cases "t = 0")
    case True
    then show ?thesis by (simp add: extract_loop_0)
  next
    case False
    from less[OF unat_drop_less[OF False]] show ?thesis
      by (simp add: extract_loop_step[OF False] split_word)
  qed
qed

lemma header_octets:
  "1 \<le> k \<Longrightarrow> k \<le> 4 \<Longrightarrow> \<not> (0x80 OR word_of_nat k :: byte) \<le> 0x7f \<and> unat ((0x80 OR word_of_nat k :: byte) AND 0x7f) = k"
proof -
  assume "1 \<le> k" "k \<le> 4"
  then have "k = 1 \<or> k = 2 \<or> k = 3 \<or> k = 4" by arith
  then show ?thesis by (elim disjE) simp_all
qed

lemma word_of_int_small: "0 \<le> n \<Longrightarrow> n \<le> 127 \<Longrightarrow> (word_of_int n :: byte) \<le> 0x7f \<and> uint (word_of_int n :: byte) = n"
proof -
  assume a: "0 \<le> n" "n \<le> 127"
  then have u: "uint (word_of_int n :: byte) = n"
    by (simp add: uint_word_of_int)
  moreover have "uint (word_of_int n :: byte) \<le> uint (0x7f :: byte)" using a u by simp
  ultimately show ?thesis by (simp add: word_le_def)
qed

lemma Unmarshal_Marshal:
  assumes "0 \<le> n" "n \<le> 2 ^ 32 - 1"
  shows "UnmarshalAsn1ElementLength (tag # MarshalAsn1ElementLength n) =
           Inr (n, int (length (MarshalAsn1ElementLength n)))"
proof (cases "n \<le> 127")
  case True
  then show ?thesis
    using word_of_int_small[OF assms(1) True]
    by (simp add: MarshalAsn1ElementLength_def UnmarshalAsn1ElementLength_def)
next
  case False
  define t :: uint32 where "t = word_of_int n"
  define vb where "vb = extract_loop t []"
  define k where "k = length vb"
  have un: "uint t = n" using assms by (simp add: t_def uint_word_of_int)
  then have "t \<noteq> 0" using False by auto
  then have "0 < k" unfolding k_def vb_def by (rule length_extract_pos)
  then have k1: "1 \<le> k" by simp
  have k4: "k \<le> 4" using length_extract_le4[of t] by (simp add: k_def vb_def)
  have m: "MarshalAsn1ElementLength n = (0x80 OR word_of_nat k) # vb"
    using False by (simp add: MarshalAsn1ElementLength_def Let_def t_def vb_def k_def)
  let ?b = "tag # (0x80 OR word_of_nat k) # vb"
  have "accumulate ?b k 0 0 = foldl (\<lambda>a x. push_bit 8 a OR ucast x) 0 (take (k - 0) (drop (2 + 0) ?b))"
    by (rule accumulate_foldl) (simp_all add: k_def)
  then have "accumulate ?b k 0 0 = t"
    by (simp add: k_def vb_def foldl_extract)
  moreover have "vb \<noteq> []" using k1 by (auto simp: k_def)
  ultimately show ?thesis
    using header_octets[OF k1 k4] un
    by (simp add: m UnmarshalAsn1ElementLength_def Let_def k_def)
qed

lemma be_nat_less: "be_nat bs < 256 ^ length bs"
proof (induction bs rule: rev_induct)
  case Nil
  show ?case by (simp add: be_nat_def)
next
  case (snoc x xs)
  have "unat x < 256" using unsigned_less[of x] by simp
  with snoc show ?case by (simp add: be_nat_snoc)
qed

lemma be_nat_lower: "bs \<noteq> [] \<Longrightarrow> hd bs \<noteq> 0 \<Longrightarrow> 256 ^ (length bs - 1) \<le> be_nat bs"
proof (induction bs rule: rev_induct)
  case Nil
  then show ?case by simp
next
  case (snoc x xs)
  show ?case
  proof (cases "xs = []")
    case True
    with snoc.prems have "unat x \<noteq> 0" by (simp add: unat_eq_0)
    with True show ?thesis by (simp add: be_nat_def)
  next
    case False
    with snoc have "256 ^ (length xs - 1) \<le> be_nat xs" by simp
    then have "256 ^ (length xs - 1) * 256 \<le> be_nat xs * 256" by simp
    moreover have "(256::nat) ^ (length xs - 1) * 256 = 256 ^ length xs"
      using False by (cases xs) simp_all
    ultimately show ?thesis by (simp add: be_nat_snoc)
  qed
qed

lemma be_nat_minimal:
  assumes "bs \<noteq> []" "hd bs \<noteq> 0" "be_nat bs' = be_nat bs"
  shows "length bs \<le> length bs'"
proof -
  have "(256::nat) ^ (length bs - 1) \<le> be_nat bs'"
    using be_nat_lower[OF assms(1,2)] assms(3) by simp
  also have "\<dots> < 256 ^ length bs'"
    by (rule be_nat_less)
  finally have "length bs - 1 < length bs'"
    by (simp add: power_strict_increasing_iff)
  then show ?thesis using assms(1) by (cases bs) simp_all
qed


text \<open>
  C1. Length codec round-trip with minimality: for every integer \<open>n\<close> in
  \<open>[0, 2^32-1]\<close> and every tag byte, decoding the buffer made of the tag byte followed
  by \<open>MarshalAsn1ElementLength n\<close> returns \<open>n\<close> and the number of bytes of the encoding,
  with no error. The encoding is one byte for \<open>n \<le> 127\<close>; otherwise it is a header byte
  \<open>0x80 | k\<close> followed by exactly \<open>k\<close> bytes (\<open>1 \<le> k \<le> 4\<close>) whose big-endian value is
  \<open>n\<close>, with no leading zero byte, and no byte string denoting \<open>n\<close> is shorter.
\<close>

theorem length_codec_roundtrip_minimal:
  assumes "0 \<le> n" "n \<le> 2 ^ 32 - 1"
  shows "UnmarshalAsn1ElementLength (tag # MarshalAsn1ElementLength n) =
           Inr (n, int (length (MarshalAsn1ElementLength n)))
       \<and> (if n \<le> 127 then MarshalAsn1ElementLength n = [word_of_int n]
          else \<exists>k bs. MarshalAsn1ElementLength n = (0x80 OR word_of_nat k) # bs
                 \<and> length bs = k \<and> 1 \<le> k \<and> k \<le> 4 \<and> hd bs \<noteq> 0 \<and> int (be_nat bs) = n
                 \<and> (\<forall>bs'. int (be_nat bs') = n \<longrightarrow> k \<le> length bs'))"
proof (cases "n \<le> 127")
  case True
  then show ?thesis
    using Unmarshal_Marshal[OF assms] by (simp add: MarshalAsn1ElementLength_def)
next
  case False
  define t :: uint32 where "t = word_of_int n"
  define vb where "vb = extract_loop t []"
  have un: "uint t = n" using assms by (simp add: t_def uint_word_of_int)
  then have t0: "t \<noteq> 0" using False by auto
  have ne: "vb \<noteq> []" using length_extract_pos[OF t0] by (simp add: vb_def)
  have hd: "hd vb \<noteq> 0" unfolding vb_def by (rule hd_extract[OF t0])
  have val: "int (be_nat vb) = n" using un by (simp add: vb_def be_nat_extract)
  have mini: "\<forall>bs'. int (be_nat bs') = n \<longrightarrow> length vb \<le> length bs'"
    using be_nat_minimal[OF ne hd] val by auto
  have "MarshalAsn1ElementLength n = (0x80 OR word_of_nat (length vb)) # vb"
    using False by (simp add: MarshalAsn1ElementLength_def Let_def t_def vb_def)
  moreover have "1 \<le> length vb" using ne by (cases vb) simp_all
  moreover have "length vb \<le> 4" unfolding vb_def by (rule length_extract_le4)
  ultimately have "\<exists>k bs. MarshalAsn1ElementLength n = (0x80 OR word_of_nat k) # bs
                 \<and> length bs = k \<and> 1 \<le> k \<and> k \<le> 4 \<and> hd bs \<noteq> 0 \<and> int (be_nat bs) = n
                 \<and> (\<forall>bs'. int (be_nat bs') = n \<longrightarrow> k \<le> length bs')"
    using hd val mini by blast
  then show ?thesis
    using Unmarshal_Marshal[OF assms] False by simp
qed

theorem length_codec_roundtrip_minimal_witness:
  "(0::int) \<le> 300 \<and> (300::int) \<le> 2 ^ 32 - 1
   \<and> UnmarshalAsn1ElementLength (0x04 # MarshalAsn1ElementLength 300) = Inr (300, 3)
   \<and> MarshalAsn1ElementLength 300 = [0x82, 0x01, 0x2C]
   \<and> UnmarshalAsn1ElementLength (0x04 # MarshalAsn1ElementLength 5) = Inr (5, 1)
   \<and> MarshalAsn1ElementLength 5 = [0x05]"
proof -
  have m: "MarshalAsn1ElementLength 300 = [0x82, 0x01, 0x2C]"
    by (simp add: MarshalAsn1ElementLength_def extract_loop.simps)
  have m5: "MarshalAsn1ElementLength 5 = [0x05]"
    by (simp add: MarshalAsn1ElementLength_def)
  show ?thesis
    using length_codec_roundtrip_minimal[of 300 "0x04"]
      length_codec_roundtrip_minimal[of 5 "0x04"]
    by (simp add: m m5)
qed

section \<open>Properties of tags\<close>

lemma class_range: "0 \<le> (c::int) \<Longrightarrow> c \<le> 3 \<Longrightarrow> c \<in> {0, 1, 2, 3}"
  by auto

lemma form_range: "0 \<le> (c::int) \<Longrightarrow> c \<le> 1 \<Longrightarrow> c \<in> {0, 1}"
  by auto

lemma code_range:
  "0 \<le> (c::int) \<Longrightarrow> c \<le> 31 \<Longrightarrow>
   c \<in> {0, 1, 2, 3, 4, 5, 6, 7, 8, 9, 10, 11, 12, 13, 14, 15, 16, 17, 18, 19, 20, 21, 22, 23,
        24, 25, 26, 27, 28, 29, 30, 31}"
  by (simp; presburger)

text \<open>
  C8. Tag round-trip: for every class in \<open>[0,3]\<close>, form in \<open>{0,1}\<close> and code in
  \<open>[0,31]\<close>, the tag built by \<open>NewTag\<close> equals \<open>(class << 6) | (form << 5) | code\<close>, and
  its \<open>Class\<close>, \<open>Form\<close> and \<open>Code\<close> accessors return class, form and code.
\<close>

theorem tag_roundtrip:
  assumes "0 \<le> cls" "cls \<le> 3" "0 \<le> form" "form \<le> 1" "0 \<le> code" "code \<le> 31"
  shows "uint (NewTag cls form code) = (push_bit 6 cls OR push_bit 5 form OR code)
       \<and> Class (NewTag cls form code) = cls
       \<and> Form (NewTag cls form code) = form
       \<and> Code (NewTag cls form code) = code"
  using class_range[OF assms(1,2)] form_range[OF assms(3,4)] code_range[OF assms(5,6)]
  unfolding NewTag_def Class_def Form_def Code_def
  by (elim insertE emptyE; simp)

theorem tag_roundtrip_witness:
  "uint (NewTag 2 1 17) = 177 \<and> Class (NewTag 2 1 17) = 2
   \<and> Form (NewTag 2 1 17) = 1 \<and> Code (NewTag 2 1 17) = 17"
  using tag_roundtrip[of 2 1 17] by simp

section \<open>Properties of serialisation\<close>

lemma Marshal_short: "len \<le> 127 \<Longrightarrow> MarshalAsn1ElementLength len = [word_of_int len]"
  by (simp add: MarshalAsn1ElementLength_def)

lemma MarshalLen_short: "Length i \<le> 127 \<Longrightarrow> MarshalLen i = 2 + Length i"
  by (simp add: MarshalLen_def Marshal_short)

lemma nat_2_plus [simp]: "nat (2 + int k) = Suc (Suc k)"
  by simp

lemma NewIE_sel [simp]:
  "Tag (NewIE t v) = t" "Length (NewIE t v) = int (length v)" "Value (NewIE t v) = v" "IE (NewIE t v) = []"
  by (simp_all add: NewIE_def SetLength_def)

lemma NewIE_eq: "NewIE t v = MkIE t (int (length v)) v []"
  by (simp add: NewIE_def SetLength_def)

lemma MarshalTo_short:
  assumes "Length i = int (length (Value i))" "length (Value i) \<le> 127" "int (length b) \<ge> MarshalLen i"
  shows "MarshalTo i b = Inr ([Tag i] @ MarshalAsn1ElementLength (Length i) @ Value i @ drop (nat (MarshalLen i)) b)"
proof -
  have ml: "MarshalLen i = 2 + int (length (Value i))"
    using assms(1,2) by (simp add: MarshalLen_short)
  obtain x y rest where b: "b = x # y # rest"
    using assms(3) ml by (cases b; cases "tl b") auto
  show ?thesis
    using assms ml
    by (simp add: MarshalTo_def Let_def Marshal_short copy_def b)
qed

lemma MarshalBinary_short:
  assumes "length v \<le> 127"
  shows "MarshalBinary (NewIE t v) = Inr (t # word_of_nat (length v) # v)"
proof -
  let ?i = "NewIE t v"
  have ml: "MarshalLen ?i = 2 + int (length v)" using assms by (simp add: MarshalLen_short)
  have "MarshalTo ?i (replicate (nat (MarshalLen ?i)) 0) = Inr ([Tag ?i] @ MarshalAsn1ElementLength (Length ?i) @ Value ?i @ drop (nat (MarshalLen ?i)) (replicate (nat (MarshalLen ?i)) 0))"
    by (rule MarshalTo_short) (use assms ml in simp_all)
  then show ?thesis
    using assms ml by (simp add: MarshalBinary_def Marshal_short)
qed

text \<open>
  C2. Serialized layout: for an IE with \<open>Length = len(Value)\<close> and a destination buffer
  of at least \<open>MarshalLen()\<close> bytes, \<open>MarshalTo\<close> should write the tag byte, then
  \<open>MarshalAsn1ElementLength(Length)\<close>, then the value, also when the length header has
  more than one byte. The lemma \<open>MarshalTo_short\<close> above shows it for values of at most
  127 bytes. For a value of 128 bytes the length header is \<open>[0x81, 0x80]\<close> and
  \<open>MarshalLen\<close> is 131, but \<open>copy(b[2:i.MarshalLen()], i.Value)\<close> starts the value at
  offset 2 all the same: it overwrites the second header byte, and the last byte of the
  buffer is left as it was.
\<close>

theorem MarshalTo_long_form_overwrites_header:
  "MarshalLen (NewIE 0x04 (replicate 128 0xAA)) = 131
   \<and> MarshalTo (NewIE 0x04 (replicate 128 0xAA)) (replicate 131 0)
       = Inr ([0x04, 0x81] @ replicate 128 0xAA @ [0x00])
   \<and> [0x04] @ MarshalAsn1ElementLength 128 @ replicate 128 0xAA
       = [0x04, 0x81, 0x80] @ replicate 128 0xAA
   \<and> MarshalTo (NewIE 0x04 (replicate 128 0xAA)) (replicate 131 0)
       \<noteq> Inr ([Tag (NewIE 0x04 (replicate 128 0xAA))]
               @ MarshalAsn1ElementLength (Length (NewIE 0x04 (replicate 128 0xAA)))
               @ Value (NewIE 0x04 (replicate 128 0xAA)))"
  by code_simp

section \<open>Properties of the flat parser\<close>

lemma word_of_nat_small:
  assumes "k \<le> 127"
  shows "(word_of_nat k :: byte) \<le> 0x7f" and "uint (word_of_nat k :: byte) = int k"
  using word_of_int_small[of "int k"] assms by simp_all

lemma Unmarshal_ie_short:
  "k \<le> 127 \<Longrightarrow> UnmarshalAsn1ElementLength_ie (t # word_of_nat k # rest) = Inr (int k)"
  by (simp add: UnmarshalAsn1ElementLength_ie_def word_of_nat_small)

lemma ParseIE_encoded:
  assumes "length v \<le> 127" "1 \<le> length v + length rest"
  shows "ParseIE (t # word_of_nat (length v) # v @ rest) = Inr (NewIE t v)"
  using assms
  by (auto simp: ParseIE_def UnmarshalBinary_def Let_def Unmarshal_ie_short zeroIE_def NewIE_eq)

lemma ParseIE_too_short: "length b < 3 \<Longrightarrow> ParseIE b = Inl ErrUnexpectedEOF"
  by (simp add: ParseIE_def UnmarshalBinary_def)

text \<open>
  C6. Strict flat single-IE parse: \<open>UnmarshalBinary\<close> fails with \<open>io.ErrUnexpectedEOF\<close>
  when \<open>len(b) < 3\<close>, and when the length decoder returns a length \<open>len\<close> with
  \<open>len(b) < 2 + len\<close>; when the decoder returns \<open>len\<close> and the buffer holds \<open>2 + len\<close>
  bytes it sets \<open>Tag\<close> from \<open>b[0]\<close>, \<open>Length\<close> to \<open>len\<close> and \<open>Value\<close> to
  \<open>b[2 : 2+len]\<close>. An error of the length decoder is returned as it is. In every case
  the children of the receiver are left as they were.
\<close>

theorem UnmarshalBinary_flat:
  "(length b < 3 \<longrightarrow> UnmarshalBinary i b = (i, Some ErrUnexpectedEOF))
   \<and> (3 \<le> length b \<longrightarrow> UnmarshalAsn1ElementLength_ie b = Inr len \<longrightarrow> int (length b) < 2 + len \<longrightarrow>
        snd (UnmarshalBinary i b) = Some ErrUnexpectedEOF)
   \<and> (3 \<le> length b \<longrightarrow> UnmarshalAsn1ElementLength_ie b = Inr len \<longrightarrow> 2 + len \<le> int (length b) \<longrightarrow>
        UnmarshalBinary i b = (MkIE (b ! 0) len (take (nat len) (drop 2 b)) (IE i), None))
   \<and> (3 \<le> length b \<longrightarrow> UnmarshalAsn1ElementLength_ie b = Inl err \<longrightarrow>
        snd (UnmarshalBinary i b) = Some err)
   \<and> IE (fst (UnmarshalBinary i b)) = IE i"
  by (auto simp: UnmarshalBinary_def Let_def dest: Unmarshal_ie_nonneg split: sum.splits)

theorem UnmarshalBinary_flat_witness:
  "UnmarshalBinary zeroIE [0x04] = (zeroIE, Some ErrUnexpectedEOF)
   \<and> UnmarshalAsn1ElementLength_ie [0x04, 0x05, 0x01] = Inr 5
   \<and> snd (UnmarshalBinary zeroIE [0x04, 0x05, 0x01]) = Some ErrUnexpectedEOF
   \<and> UnmarshalAsn1ElementLength_ie [0x04, 0x02, 0xAA, 0xBB] = Inr 2
   \<and> UnmarshalBinary zeroIE [0x04, 0x02, 0xAA, 0xBB] = (MkIE 0x04 2 [0xAA, 0xBB] [], None)
   \<and> UnmarshalAsn1ElementLength_ie [0x04, 0x85, 0x01]
       = Inl (Errorf ''buffer too short for long-form length'')
   \<and> snd (UnmarshalBinary zeroIE [0x04, 0x85, 0x01])
       = Some (Errorf ''buffer too short for long-form length'')"
proof -
  have d1: "UnmarshalAsn1ElementLength_ie [0x04, 0x05, 0x01] = Inr 5"
    and d2: "UnmarshalAsn1ElementLength_ie [0x04, 0x02, 0xAA, 0xBB] = Inr 2"
    and d3: "UnmarshalAsn1ElementLength_ie [0x04, 0x85, 0x01]
       = Inl (Errorf ''buffer too short for long-form length'')"
    by (simp_all add: UnmarshalAsn1ElementLength_ie_def)
  show ?thesis
    using UnmarshalBinary_flat[of "[0x04]" zeroIE]
      UnmarshalBinary_flat[of "[0x04, 0x05, 0x01]" zeroIE 5]
      UnmarshalBinary_flat[of "[0x04, 0x02, 0xAA, 0xBB]" zeroIE 2]
      UnmarshalBinary_flat[of "[0x04, 0x85, 0x01]" zeroIE _
        "Errorf ''buffer too short for long-form length''"]
      d1 d2 d3
    by (simp add: zeroIE_def)
qed

text \<open>
  C9 (amended). Indefinite-length rejection: for every buffer \<open>b\<close> with \<open>len(b) \<ge> 2\<close>
  whose byte \<open>b[1]\<close> is exactly \<open>0x80\<close>, both length decoders fail with the error
  ``indefinite length not supported''; the flat parser returns this error to its caller
  when \<open>len(b) \<ge> 3\<close>, and fails with \<open>io.ErrUnexpectedEOF\<close> before it calls the decoder
  when \<open>len(b) = 2\<close>.
\<close>

theorem indefinite_length_rejected:
  assumes "2 \<le> length b" "b ! 1 = 0x80"
  shows "UnmarshalAsn1ElementLength b = Inl (Errorf ''indefinite length not supported'')
       \<and> UnmarshalAsn1ElementLength_ie b = Inl (Errorf ''indefinite length not supported'')
       \<and> ParseIE b = (if length b < 3 then Inl ErrUnexpectedEOF
                      else Inl (Errorf ''indefinite length not supported''))"
  using assms
  by (simp add: UnmarshalAsn1ElementLength_def UnmarshalAsn1ElementLength_ie_def ParseIE_def
      UnmarshalBinary_def Let_def)

theorem indefinite_length_rejected_witness:
  "UnmarshalAsn1ElementLength [0x04, 0x80, 0x00] = Inl (Errorf ''indefinite length not supported'')
   \<and> ParseIE [0x04, 0x80, 0x00] = Inl (Errorf ''indefinite length not supported'')"
  using indefinite_length_rejected[of "[0x04, 0x80, 0x00]"] by simp

text \<open>
  C9 as stated fails at the two-byte buffer \<open>[0x04, 0x80]\<close>: the length decoder rejects
  the indefinite form, but the flat parser stops at its guard \<open>len(b) < 3\<close> and returns
  \<open>io.ErrUnexpectedEOF\<close>, not the decoder's error.
\<close>

theorem indefinite_length_two_bytes:
  "UnmarshalAsn1ElementLength [0x04, 0x80] = Inl (Errorf ''indefinite length not supported'')
   \<and> ParseIE [0x04, 0x80] = Inl ErrUnexpectedEOF
   \<and> ParseIE [0x04, 0x80] \<noteq> Inl (Errorf ''indefinite length not supported'')"
  by code_simp

text \<open>
  C3 (amended). Primitive IE round-trip: for every tag and every value of at most 127
  bytes, \<open>MarshalBinary\<close> of the IE built by \<open>NewIE\<close> is the tag byte, the length byte
  and the value; \<open>ParseIE\<close> of these bytes yields the original IE (same \<open>Tag\<close>, \<open>Length\<close>
  and \<open>Value\<close>, no children) when the value is not empty, and fails with
  \<open>io.ErrUnexpectedEOF\<close> when the value is empty, because the encoding then has two bytes
  and the parser requires three.
\<close>

theorem primitive_roundtrip_short:
  assumes "length v \<le> 127"
  shows "MarshalBinary (NewIE t v) = Inr (t # word_of_nat (length v) # v)
       \<and> ParseIE (t # word_of_nat (length v) # v) =
           (if v = [] then Inl ErrUnexpectedEOF else Inr (NewIE t v))"
proof (cases "v = []")
  case True
  then show ?thesis
    using MarshalBinary_short[OF assms, of t] by (simp add: ParseIE_too_short)
next
  case False
  then have "1 \<le> length v + length ([] :: byte list)" by (cases v) simp_all
  from ParseIE_encoded[OF assms this, of t] False show ?thesis
    using MarshalBinary_short[OF assms, of t] by simp
qed

theorem primitive_roundtrip_short_witness:
  "MarshalBinary (NewIE 0x04 [0xAA, 0xBB]) = Inr [0x04, 0x02, 0xAA, 0xBB]
   \<and> ParseIE [0x04, 0x02, 0xAA, 0xBB] = Inr (MkIE 0x04 2 [0xAA, 0xBB] [])"
  using primitive_roundtrip_short[of "[0xAA, 0xBB]" "0x04"] by (simp add: NewIE_eq)

text \<open>
  C3 as stated fails for the IE with tag \<open>0x04\<close> and an empty value: its encoding is
  \<open>[0x04, 0x00]\<close>, which \<open>ParseIE\<close> rejects.
\<close>

theorem primitive_roundtrip_empty_value:
  "MarshalBinary (NewIE 0x04 []) = Inr [0x04, 0x00]
   \<and> ParseIE [0x04, 0x00] = Inl ErrUnexpectedEOF
   \<and> ParseIE [0x04, 0x00] \<noteq> Inr (NewIE 0x04 [])"
  by code_simp

lemma ParseMultiIEs_loop_Nil: "ParseMultiIEs_loop [] ies = Inr ies"
  by (subst ParseMultiIEs_loop.simps) simp

lemma ParseMultiIEs_loop_step:
  assumes "ParseIE b = Inr i" "b \<noteq> []" "0 \<le> MarshalLen i" "MarshalLen i \<le> int (length b)"
  shows "ParseMultiIEs_loop b ies = ParseMultiIEs_loop (drop (nat (MarshalLen i)) b) (ies @ [i])"
  using assms by (subst ParseMultiIEs_loop.simps) simp

lemma primitive_eq_NewIE:
  "Length i = int (length (Value i)) \<Longrightarrow> IE i = [] \<Longrightarrow> i = NewIE (Tag i) (Value i)"
  by (cases i) (simp add: NewIE_eq)

lemma ParseMultiIEs_loop_encoded:
  assumes "\<forall>i\<in>set ies. Length i = int (length (Value i)) \<and> IE i = [] \<and> length (Value i) \<le> 127"
    and "ies \<noteq> [] \<longrightarrow> Value (last ies) \<noteq> []"
  shows "ParseMultiIEs_loop
           (concat (map (\<lambda>i. Tag i # word_of_nat (length (Value i)) # Value i) ies)) acc
         = Inr (acc @ ies)"
  using assms
proof (induction ies arbitrary: acc)
  case Nil
  show ?case by (simp add: ParseMultiIEs_loop_Nil)
next
  case (Cons i rest)
  let ?enc = "\<lambda>i. Tag i # word_of_nat (length (Value i)) # Value i"
  let ?tail = "concat (map ?enc rest)"
  from Cons.prems(1) have len: "Length i = int (length (Value i))" and prim: "IE i = []"
    and short: "length (Value i) \<le> 127"
    by simp_all
  have i_eq: "NewIE (Tag i) (Value i) = i"
    using primitive_eq_NewIE[OF len prim] by simp
  have more: "1 \<le> length (Value i) + length ?tail"
  proof (cases rest)
    case Nil
    with Cons.prems(2) show ?thesis by (cases "Value i") simp_all
  next
    case (Cons j js)
    then show ?thesis by simp
  qed
  have parse: "ParseIE (?enc i @ ?tail) = Inr i"
    using ParseIE_encoded[OF short more, of "Tag i"] i_eq by simp
  have ml: "MarshalLen i = 2 + int (length (Value i))"
    using len short by (simp add: MarshalLen_short)
  have step: "ParseMultiIEs_loop (?enc i @ ?tail) acc
      = ParseMultiIEs_loop (drop (nat (MarshalLen i)) (?enc i @ ?tail)) (acc @ [i])"
    by (rule ParseMultiIEs_loop_step[OF parse]) (simp_all add: ml)
  have rest_ok: "\<forall>i\<in>set rest. Length i = int (length (Value i)) \<and> IE i = [] \<and> length (Value i) \<le> 127"
    using Cons.prems(1) by simp
  have last_ok: "rest \<noteq> [] \<longrightarrow> Value (last rest) \<noteq> []"
    using Cons.prems(2) by auto
  have "ParseMultiIEs_loop ?tail (acc @ [i]) = Inr ((acc @ [i]) @ rest)"
    by (rule Cons.IH[OF rest_ok last_ok])
  with step show ?case by (simp add: ml)
qed

text \<open>
  C7 (amended). Flat sequence parse: for every list of IEs without children, each with
  \<open>Length = len(Value)\<close> and a value of at most 127 bytes, whose last IE (if there is
  one) has a non-empty value, every IE is encoded by \<open>MarshalBinary\<close> as its tag byte,
  length byte and value, and \<open>ParseMultiIEs\<close> of the concatenation of these encodings
  succeeds and returns exactly the original IEs in their order. (The loop returns only
  when the remaining buffer is empty, so the whole input is consumed.)
\<close>

theorem flat_sequence_roundtrip_short:
  assumes "\<forall>i\<in>set ies. Length i = int (length (Value i)) \<and> IE i = [] \<and> length (Value i) \<le> 127"
    and "ies \<noteq> [] \<longrightarrow> Value (last ies) \<noteq> []"
  shows "map MarshalBinary ies
           = map (\<lambda>i. Inr (Tag i # word_of_nat (length (Value i)) # Value i)) ies
       \<and> ParseMultiIEs
            (concat (map (\<lambda>i. Tag i # word_of_nat (length (Value i)) # Value i) ies))
           = Inr ies"
proof -
  let ?enc = "\<lambda>i. Tag i # word_of_nat (length (Value i)) # Value i"
  have "MarshalBinary i = Inr (?enc i)" if "i \<in> set ies" for i
  proof -
    from that assms(1) have "Length i = int (length (Value i))" "IE i = []" "length (Value i) \<le> 127"
      by simp_all
    then show ?thesis
      using MarshalBinary_short[of "Value i" "Tag i"] primitive_eq_NewIE[of i] by simp
  qed
  then have "map MarshalBinary ies = map (\<lambda>i. Inr (?enc i)) ies" by simp
  moreover have "ParseMultiIEs (concat (map ?enc ies)) = Inr ies"
    using ParseMultiIEs_loop_encoded[OF assms, of "[]"] by (simp add: ParseMultiIEs_def)
  ultimately show ?thesis by simp
qed

theorem flat_sequence_roundtrip_short_witness:
  "map MarshalBinary [MkIE 0x04 0 [] [], MkIE 0x05 1 [0x07] []]
     = [Inr [0x04, 0x00], Inr [0x05, 0x01, 0x07]]
   \<and> ParseMultiIEs [0x04, 0x00, 0x05, 0x01, 0x07] = Inr [MkIE 0x04 0 [] [], MkIE 0x05 1 [0x07] []]"
  using flat_sequence_roundtrip_short[of "[MkIE 0x04 0 [] [], MkIE 0x05 1 [0x07] []]"]
  by simp

text \<open>
  C7 as stated fails for the one-element list holding the IE with tag \<open>0x04\<close> and an
  empty value: the two remaining bytes \<open>[0x04, 0x00]\<close> are rejected by the guard
  \<open>len(b) < 3\<close> of the single-IE parser.
\<close>

theorem flat_sequence_trailing_empty_value:
  "MarshalBinary (MkIE 0x04 0 [] []) = Inr [0x04, 0x00]
   \<and> ParseMultiIEs [0x04, 0x00] = Inl ErrUnexpectedEOF
   \<and> ParseMultiIEs [0x04, 0x00] \<noteq> Inr [MkIE 0x04 0 [] []]"
  by code_simp

text \<open>
  C10. The flat sequence parse should never read past the buffer: an IE that parses from
  the remaining buffer should have a \<open>MarshalLen()\<close> of at most the length of that
  buffer. On the 130-byte buffer \<open>0x04, 0x81, 0x80\<close> followed by 127 zero bytes the
  single-IE parser decodes the long-form length 128, checks \<open>len(b) \<ge> 2 + 128\<close> (counting
  one length byte) and succeeds; \<open>MarshalLen()\<close> counts the two bytes of the length header
  and is 131, so the slice \<open>b[i.MarshalLen():]\<close> is out of range and panics.
\<close>

theorem ParseMultiIEs_long_form_panics:
  "ParseIE ([0x04, 0x81, 0x80] @ replicate 127 0) = Inr (MkIE 0x04 128 (0x80 # replicate 127 0) [])
   \<and> MarshalLen (MkIE 0x04 128 (0x80 # replicate 127 0) []) = 131
   \<and> length ([0x04, 0x81, 0x80] @ replicate 127 (0::byte)) = 130
   \<and> ParseMultiIEs ([0x04, 0x81, 0x80] @ replicate 127 0) = Inl Panic"
  by code_simp

section \<open>Properties of the recursive parser\<close>

lemma foldl_MarshalLen_sum:
  "foldl (\<lambda>l ie. l + MarshalLen ie) a cs = a + sum_list (map MarshalLen cs)"
  by (induction cs arbitrary: a) simp_all

text \<open>
  C5. Cursor advance of the recursive sequence parser: when \<open>ParseIERecursive\<close> parses an
  element \<open>i\<close> from the non-empty remaining buffer \<open>b\<close>, the loop of \<open>ParseAsBER\<close> appends
  \<open>i\<close> and goes on with \<open>b[l:]\<close>, where \<open>l\<close> is 2 plus the sum of the children's
  \<open>MarshalLen()\<close> when \<open>i\<close> has a child and the first child's \<open>MarshalLen()\<close> is strictly
  less than \<open>i.MarshalLen() - 2\<close>, and \<open>i.MarshalLen()\<close> in every other case. \<open>l\<close> is at
  least 2; the slice panics when \<open>l\<close> exceeds \<open>len(b)\<close>.
\<close>

theorem cursor_advance:
  assumes "b \<noteq> []" "ParseIERecursive b = Inr i"
  shows "(let l = (if IE i \<noteq> [] \<and> MarshalLen (hd (IE i)) < MarshalLen i - 2
                   then 2 + sum_list (map MarshalLen (IE i))
                   else MarshalLen i)
          in 2 \<le> l
           \<and> ParseAsBER_loop b ies =
               (if int (length b) < l then Inl Panic
                else ParseAsBER_loop (drop (nat l) b) (ies @ [i])))"
proof (cases "IE i")
  case Nil
  then show ?thesis
    using assms advance_ge2[OF assms(2)]
    by (subst ParseAsBER_loop.simps) (simp add: Let_def)
next
  case (Cons c cs)
  then have "IE i ! 0 = hd (IE i)" by simp
  with Cons show ?thesis
    using assms advance_ge2[OF assms(2)]
    by (subst ParseAsBER_loop.simps) (auto simp add: Let_def foldl_MarshalLen_sum)
qed

theorem cursor_advance_witness:
  "ParseIERecursive [0x30, 0x06, 0x04, 0x01, 0x01, 0x05, 0x01, 0x09, 0x04, 0x01, 0x07]
     = Inr (MkIE 0x30 6 [0x04, 0x01, 0x01, 0x05, 0x01, 0x09]
              [MkIE 0x04 1 [0x01] [], MkIE 0x05 1 [0x09] []])
   \<and> ParseAsBER_loop [0x30, 0x06, 0x04, 0x01, 0x01, 0x05, 0x01, 0x09, 0x04, 0x01, 0x07] []
     = ParseAsBER_loop [0x04, 0x01, 0x07]
         [MkIE 0x30 6 [0x04, 0x01, 0x01, 0x05, 0x01, 0x09]
            [MkIE 0x04 1 [0x01] [], MkIE 0x05 1 [0x09] []]]
   \<and> ParseIERecursive [0x04, 0x01, 0x07, 0x05, 0x00] = Inr (MkIE 0x04 1 [0x07] [])
   \<and> ParseAsBER_loop [0x04, 0x01, 0x07, 0x05, 0x00] []
     = ParseAsBER_loop [0x05, 0x00] [MkIE 0x04 1 [0x07] []]"
proof -
  have p: "ParseIERecursive [0x30, 0x06, 0x04, 0x01, 0x01, 0x05, 0x01, 0x09, 0x04, 0x01, 0x07]
     = Inr (MkIE 0x30 6 [0x04, 0x01, 0x01, 0x05, 0x01, 0x09]
              [MkIE 0x04 1 [0x01] [], MkIE 0x05 1 [0x09] []])"
    by code_simp
  have q: "ParseIERecursive [0x04, 0x01, 0x07, 0x05, 0x00] = Inr (MkIE 0x04 1 [0x07] [])"
    by code_simp
  show ?thesis
    using cursor_advance[OF _ p, of "[]"] cursor_advance[OF _ q, of "[]"] p q
    by (simp add: MarshalLen_def MarshalAsn1ElementLength_def)
qed

text \<open>
  The lenient branches of \<open>ParseRecursive\<close>: a declared length that overruns the buffer
  leaves \<open>Value\<close> and the children as they were and returns no error (where the flat
  parser returns \<open>io.ErrUnexpectedEOF\<close>); an error returned by the nested \<open>ParseAsBER\<close>
  is dropped and the children are left as they were. A panic of the nested \<open>ParseAsBER\<close>
  is not dropped.
\<close>

lemma ParseRecursive_overrun:
  assumes "2 \<le> length b" "UnmarshalAsn1ElementLength_ie b = Inr len" "int (length b) < len + 2"
  shows "ParseRecursive i b = (MkIE (b ! 0) len (Value i) (IE i), None)"
    and "3 \<le> length b \<Longrightarrow> snd (UnmarshalBinary i b) = Some ErrUnexpectedEOF"
  using assms
  by (simp_all add: ParseRecursive.simps UnmarshalBinary_def Let_def)

lemma ParseRecursive_swallows_error:
  assumes "2 \<le> length b" "UnmarshalAsn1ElementLength_ie b = Inr len" "len + 2 \<le> int (length b)"
    and "Form (b ! 0) = 1"
    and "ParseAsBER (take (nat len) (drop 2 b)) = Inl err" "err \<noteq> Panic"
  shows "ParseRecursive i b = (MkIE (b ! 0) len (take (nat len) (drop 2 b)) (IE i), None)"
  using assms Unmarshal_ie_nonneg[OF assms(2)]
  by (simp add: ParseRecursive.simps Let_def ParseAsBER_def)

lemma ParseRecursive_propagates_panic:
  assumes "2 \<le> length b" "UnmarshalAsn1ElementLength_ie b = Inr len" "len + 2 \<le> int (length b)"
    and "Form (b ! 0) = 1"
    and "ParseAsBER (take (nat len) (drop 2 b)) = Inl Panic"
  shows "snd (ParseRecursive i b) = Some Panic"
  using assms Unmarshal_ie_nonneg[OF assms(2)]
  by (simp add: ParseRecursive.simps Let_def ParseAsBER_def)

text \<open>
  C4. Lenient recursive parse of nested elements: nested malformation should never
  propagate out of \<open>ParseRecursive\<close>. It does when the malformed nested element is one
  whose declared length overruns: on \<open>[0x30, 0x03, 0x04, 0x05, 0x01]\<close> the constructed
  element's value \<open>[0x04, 0x05, 0x01]\<close> holds an element that declares 5 bytes and has
  1. The nested \<open>ParseRecursive\<close> returns it leniently with \<open>Length = 5\<close>, and the loop
  of \<open>ParseAsBER\<close> then advances by its \<open>MarshalLen() = 7\<close> over a 3-byte buffer: the
  slice \<open>b[7:]\<close> panics, and the panic unwinds through the outer \<open>ParseRecursive\<close>.
\<close>

theorem ParseRecursive_nested_overrun_panics:
  "ParseRecursive zeroIE [0x04, 0x05, 0x01] = (MkIE 0x04 5 [] [], None)
   \<and> MarshalLen (MkIE 0x04 5 [] []) = 7
   \<and> ParseAsBER [0x04, 0x05, 0x01] = Inl Panic
   \<and> Form 0x30 = 1
   \<and> snd (ParseRecursive zeroIE [0x30, 0x03, 0x04, 0x05, 0x01]) = Some Panic"
  by code_simp

end
